theory Spec2Isabelle
  imports Complex_Main
begin

section \<open>s3du: the directory tree built from a flat object listing\<close>

text \<open>
  The program (\<^verbatim>\<open>src/s3du/main.py\<close>) lists the objects of S3 buckets into a CSV cache
  file, reads the cache back as \<open>(path, size)\<close> pairs, builds a directory tree from the
  pairs and converts the tree to the nested arrays that ncdu imports.

  Python strings are modelled as \<open>string\<close>; the separator \<open>/\<close> is ASCII, so splitting the
  UTF-8 bytes of a path on it gives the segments that Python's split gives on code points.
  Python integers are unbounded and modelled as \<open>int\<close>.
\<close>

subsection \<open>Python's \<^verbatim>\<open>str.split(sep)\<close> for a one-character separator\<close>

text \<open>
  \<^verbatim>\<open>s.split("/")\<close> cuts at every separator and keeps empty segments; the empty string
  gives one empty segment. The result is never empty, so \<^verbatim>\<open>path.pop()\<close> in
  \<^verbatim>\<open>parse_list\<close> cannot raise.
\<close>

fun split_str :: "char \<Rightarrow> string \<Rightarrow> string list" where
  "split_str sep [] = [[]]"
| "split_str sep (c # cs) =
     (if c = sep then [] # split_str sep cs
      else (c # hd (split_str sep cs)) # tl (split_str sep cs))"

subsection \<open>The tree of \<^verbatim>\<open>parse_list\<close>\<close>

text \<open>
  A node is the dictionary \<^verbatim>\<open>{'dirs': {}, 'files': []}\<close>. The inner dictionary \<^verbatim>\<open>dirs\<close> is
  an association list in insertion order, which is the order \<^verbatim>\<open>dict.items()\<close> iterates
  in; \<^verbatim>\<open>files\<close> is the list of \<open>(fname, size)\<close> tuples in the order they were appended.
\<close>

datatype tree = Node (dirs: "(string \<times> tree) list") (files: "(string \<times> int) list")

definition empty_node :: tree where
  "empty_node = Node [] []"

text \<open>
  One step of the inner loop of \<^verbatim>\<open>parse_list\<close> on the dictionary \<^verbatim>\<open>r['dirs']\<close>:
  \<^verbatim>\<open>if em not in r['dirs']: r['dirs'][em] = {'dirs': {}, 'files': []}\<close> followed by
  \<^verbatim>\<open>r = r['dirs'][em]\<close>. The code then goes on mutating the node it has moved to; the
  model applies the rest of the walk, \<open>f\<close>, to that node where it sits: at the key's
  position when the key is present, at the end of the dictionary when it is new.
\<close>

fun enter_dir :: "string \<Rightarrow> (tree \<Rightarrow> tree) \<Rightarrow> (string \<times> tree) list \<Rightarrow> (string \<times> tree) list" where
  "enter_dir em f [] = [(em, f empty_node)]"
| "enter_dir em f ((k, v) # ds) =
     (if k = em then (k, f v) # ds else (k, v) # enter_dir em f ds)"

text \<open>
  The walk \<^verbatim>\<open>for em in path\<close> from the node \<open>r\<close>, ending with
  \<^verbatim>\<open>r['files'].append((fname, size))\<close>.
\<close>

fun walk :: "string list \<Rightarrow> string \<times> int \<Rightarrow> tree \<Rightarrow> tree" where
  "walk [] entry r = Node (dirs r) (files r @ [entry])"
| "walk (em # path) entry r = Node (enter_dir em (walk path entry) (dirs r)) (files r)"

text \<open>
  The body of the outer loop: \<^verbatim>\<open>path = path.split("/")\<close>, \<^verbatim>\<open>fname = path.pop()\<close>, the walk
  from the root, the append.
\<close>

definition add_file :: "tree \<Rightarrow> string \<times> int \<Rightarrow> tree" where
  "add_file t f =
     (let path = split_str CHR ''/'' (fst f);
          fname = last path;
          path = butlast path
      in walk path (fname, snd f) t)"

definition parse_list :: "(string \<times> int) list \<Rightarrow> tree" where
  "parse_list fs = foldl add_file empty_node fs"

text \<open>The number of \<open>(fname, size)\<close> entries in all the nodes of a tree.\<close>

fun count_files :: "tree \<Rightarrow> nat" where
  "count_files (Node ds fs) = length fs + sum_list (map (\<lambda>kv. count_files (snd kv)) ds)"

subsection \<open>The ncdu export of \<^verbatim>\<open>convert_tree\<close> and \<^verbatim>\<open>convert_branch\<close>\<close>

text \<open>
  The value handed to \<^verbatim>\<open>json.dumps\<close>: integers, strings, dictionaries (in the order their
  keys are written) and lists.
\<close>

datatype json = JInt int | JStr string | JObj "(string \<times> json) list" | JArr "json list"

datatype error = KeyError string | ValueError | FileNotFoundError

text \<open>\<^verbatim>\<open>name or '(unnamed)'\<close>: the empty string is the only false string.\<close>

definition or_unnamed :: "string \<Rightarrow> string" where
  "or_unnamed name = (if name = [] then ''(unnamed)'' else name)"

text \<open>
  \<^verbatim>\<open>convert_branch\<close> starts from the empty list \<^verbatim>\<open>res\<close>, appends the name object, then one
  converted branch for every item of \<^verbatim>\<open>branch['dirs']\<close>, then one object for every tuple
  of \<^verbatim>\<open>branch['files']\<close>.
\<close>

fun convert_branch :: "tree \<Rightarrow> string \<Rightarrow> json" where
  "convert_branch (Node ds fs) name =
     JArr (foldl (\<lambda>res f. res @ [JObj [(''name'', JStr (or_unnamed (fst f))),
                                        (''dsize'', JInt (snd f))]])
            (foldl (\<lambda>res kv. res @ [convert_branch (snd kv) (fst kv)])
               ([] @ [JObj [(''name'', JStr (or_unnamed name))]]) ds)
            fs)"

text \<open>\<^verbatim>\<open>int(x)\<close> of a float truncates towards zero.\<close>

definition py_trunc :: "real \<Rightarrow> int" where
  "py_trunc x = (if 0 \<le> x then \<lfloor>x\<rfloor> else \<lceil>x\<rceil>)"

text \<open>
  \<^verbatim>\<open>convert_tree\<close>, given the value \<open>now\<close> that \<^verbatim>\<open>time.time()\<close> returns. The subscript
  \<^verbatim>\<open>tree['dirs']['']\<close> raises \<^verbatim>\<open>KeyError\<close> when the root has no directory named by the
  empty string.
\<close>

definition convert_tree :: "real \<Rightarrow> tree \<Rightarrow> error + json" where
  "convert_tree now t =
     (let ncdu = [JInt 1, JInt 0,
                  JObj [(''timestamp'', JInt (py_trunc now)),
                        (''progver'', JStr ''0.1''),
                        (''progname'', JStr ''s3du'')]]
      in case map_of (dirs t) [] of
           None \<Rightarrow> Inl (KeyError [])
         | Some branch \<Rightarrow> Inr (JArr (ncdu @ [convert_branch branch ''S3''])))"

subsection \<open>Observers of trees and exports\<close>

text \<open>The node reached from a node by a chain of directory names, if every one is there.\<close>

fun lookup_node :: "string list \<Rightarrow> tree \<Rightarrow> tree option" where
  "lookup_node [] t = Some t"
| "lookup_node (d # ds) t =
     (case map_of (dirs t) d of None \<Rightarrow> None | Some v \<Rightarrow> lookup_node ds v)"

text \<open>The leaf list of the node at a chain; empty when there is no such node.\<close>

definition files_at :: "string list \<Rightarrow> tree \<Rightarrow> (string \<times> int) list" where
  "files_at q t = (case lookup_node q t of None \<Rightarrow> [] | Some n \<Rightarrow> files n)"

text \<open>The directory chain and the leaf name that \<^verbatim>\<open>parse_list\<close> computes for a path.\<close>

definition chain_of :: "string \<Rightarrow> string list" where
  "chain_of p = butlast (split_str CHR ''/'' p)"

definition fname_of :: "string \<Rightarrow> string" where
  "fname_of p = last (split_str CHR ''/'' p)"

text \<open>
  The chain as the specification words it: the non-empty segments before the last one.
\<close>

definition spec_chain_of :: "string \<Rightarrow> string list" where
  "spec_chain_of p = filter (\<lambda>s. s \<noteq> []) (butlast (split_str CHR ''/'' p))"





text \<open>There is a node at the chain \<open>q\<close>.\<close>

definition has_node :: "string list \<Rightarrow> tree \<Rightarrow> bool" where
  "has_node q t = (case lookup_node q t of None \<Rightarrow> False | Some n \<Rightarrow> True)"


section \<open>s3du: the cache file and the pipeline\<close>

subsection \<open>Python's \<^verbatim>\<open>str(n)\<close> and \<^verbatim>\<open>int(s)\<close>\<close>

text \<open>
  \<^verbatim>\<open>str\<close> of an integer is its decimal numeral, with a minus sign when it is negative.
\<close>

definition digit_char :: "nat \<Rightarrow> char" where
  "digit_char d = ''0123456789'' ! d"

function digits :: "nat \<Rightarrow> string" where
  "digits n = (if n < 10 then [digit_char n] else digits (n div 10) @ [digit_char (n mod 10)])"
  by pat_completeness auto
termination
  by (relation "measure (\<lambda>n. n)") auto

definition py_str :: "int \<Rightarrow> string" where
  "py_str n = (if n < 0 then CHR ''-'' # digits (nat (- n)) else digits (nat n))"

text \<open>
  \<^verbatim>\<open>int(s)\<close> in base ten, on ASCII text: white space is stripped at both ends, one sign
  may follow, then decimal digits in groups separated by single underscores. Anything
  else raises \<^verbatim>\<open>ValueError\<close>, here \<open>None\<close>. (Python also takes the decimal digits and
  the white space of other scripts; those are not modelled.)
\<close>

definition is_space :: "char \<Rightarrow> bool" where
  "is_space c = (c \<in> set [CHR '' '', CHR 0x09, CHR 0x0A, CHR 0x0B, CHR 0x0C, CHR 0x0D,
                           CHR 0x1C, CHR 0x1D, CHR 0x1E, CHR 0x1F])"

definition strip :: "string \<Rightarrow> string" where
  "strip s = rev (dropWhile is_space (rev (dropWhile is_space s)))"

definition is_digit :: "char \<Rightarrow> bool" where
  "is_digit c = (c \<in> set ''0123456789'')"

definition digit_val :: "char \<Rightarrow> nat" where
  "digit_val c = of_char c - of_char CHR ''0''"

definition parse_digits :: "string \<Rightarrow> nat option" where
  "parse_digits s =
     (let groups = split_str CHR ''_'' s
      in if list_all (\<lambda>g. g \<noteq> [] \<and> list_all is_digit g) groups
         then Some (foldl (\<lambda>acc c. 10 * acc + digit_val c) 0 (concat groups))
         else None)"

definition py_int :: "string \<Rightarrow> int option" where
  "py_int s =
     (case strip s of
        [] \<Rightarrow> None
      | c # cs \<Rightarrow>
          if c = CHR ''-'' then map_option (\<lambda>n. - int n) (parse_digits cs)
          else if c = CHR ''+'' then map_option int (parse_digits cs)
          else map_option int (parse_digits (c # cs)))"

subsection \<open>The object, the files and the services\<close>

text \<open>
  The attributes that \<^verbatim>\<open>__init__\<close> gives the object (the S3 client apart). The set
  \<^verbatim>\<open>self.classes\<close> is the list of its elements, in the order \<^verbatim>\<open>join\<close> would meet them.
  \<^verbatim>\<open>None\<close> for an argument that was not given is \<open>None\<close>.
\<close>

record s3du =
  csv_name :: string
  classes :: "string list"
  verbose :: bool
  interactive :: bool
  filename :: string
  keep_file :: bool
  nocache :: bool
  storage_class :: "string option"
  bucket :: "string option"
  prefix :: string

text \<open>The command line as \<^verbatim>\<open>argparse\<close> returns it.\<close>

record args =
  arg_bucket :: "string option"
  arg_prefix :: "string option"
  arg_interactive :: bool
  arg_verbose :: bool
  arg_storage_class :: "string option"
  arg_no_cache :: bool
  arg_filename :: "string option"

text \<open>The truth value of an optional string: \<^verbatim>\<open>None\<close> and the empty string are false.\<close>

definition truthy :: "string option \<Rightarrow> bool" where
  "truthy s = (case s of None \<Rightarrow> False | Some v \<Rightarrow> v \<noteq> [])"

definition endswith :: "string \<Rightarrow> string \<Rightarrow> bool" where
  "endswith s suffix = (length suffix \<le> length s \<and> drop (length s - length suffix) s = suffix)"

text \<open>
  \<^verbatim>\<open>__init__\<close>, given the expansion \<open>home_csv\<close> of \<^verbatim>\<open>~/.cache/s3du-cache.csv\<close> and the name
  \<open>tmp\<close> that \<^verbatim>\<open>tempfile.mkstemp\<close> would return.
\<close>

definition init :: "args \<Rightarrow> string \<Rightarrow> string \<Rightarrow> s3du" where
  "init a home_csv tmp =
     (let pfx = (if truthy (arg_prefix a) then the (arg_prefix a) else []);
          pfx = (if pfx \<noteq> [] \<and> \<not> endswith pfx ''/'' then pfx @ ''/'' else pfx)
      in \<lparr> csv_name = home_csv,
           classes = [],
           verbose = arg_verbose a,
           interactive = arg_interactive a,
           filename = (if truthy (arg_filename a) then the (arg_filename a) else tmp),
           keep_file = (arg_filename a \<noteq> None),
           nocache = arg_no_cache a,
           storage_class = arg_storage_class a,
           bucket = arg_bucket a,
           prefix = pfx \<rparr>)"

text \<open>
  One item of \<^verbatim>\<open>res['Contents']\<close> and one response of \<^verbatim>\<open>list_objects_v2\<close>; a response may
  lack the keys \<^verbatim>\<open>Contents\<close> and \<^verbatim>\<open>NextContinuationToken\<close>.
\<close>

record s3_object =
  obj_key :: string
  obj_size :: int
  obj_class :: string

record response =
  contents :: "s3_object list option"
  next_token :: "string option"

text \<open>
  What the run is given from outside: the bucket names that \<^verbatim>\<open>s3.list_buckets()\<close> answers
  with, the answer of \<^verbatim>\<open>s3.list_objects_v2\<close> to a bucket, a prefix and a continuation
  token, and the value of \<^verbatim>\<open>time.time()\<close>, taken as a real number that stays the same
  during the run. Failures of the services themselves are not modelled.
\<close>

record env =
  s3_buckets :: "string list"
  s3_objects :: "string \<Rightarrow> string \<Rightarrow> string option \<Rightarrow> response"
  clock :: real

datatype call =
    ListBuckets
  | ListObjectsV2 string string "string option"
  | RunNcdu string

text \<open>
  The state that the methods change: the object; the cache file at \<^verbatim>\<open>self.csv_name\<close>, if
  it exists, as its modification time and its rows, each row the list of strings that
  \<^verbatim>\<open>csv.reader\<close> yields for it (the text of the file, with its commas and quotes, is not
  modelled: a row written is a row read); the export written to \<^verbatim>\<open>self.filename\<close>; the
  lines printed; the calls made to S3 and to ncdu.
\<close>

record state =
  self :: s3du
  cache :: "(real \<times> string list list) option"
  export :: "json option"
  stdout :: "string list"
  calls :: "call list"

definition print_line :: "string \<Rightarrow> state \<Rightarrow> state" where
  "print_line s st = st\<lparr>stdout := stdout st @ [s]\<rparr>"

definition call_made :: "call \<Rightarrow> state \<Rightarrow> state" where
  "call_made c st = st\<lparr>calls := calls st @ [c]\<rparr>"

subsection \<open>\<^verbatim>\<open>cache_files\<close>\<close>

text \<open>
  \<^verbatim>\<open>writer.writerow(values)\<close>: a string is written as it is, an integer through \<^verbatim>\<open>str\<close>;
  the row goes to the end of the file.
\<close>

datatype py_value = PStr string | PInt int

fun csv_field :: "py_value \<Rightarrow> string" where
  "csv_field (PStr s) = s"
| "csv_field (PInt n) = py_str n"

definition writerow :: "py_value list \<Rightarrow> state \<Rightarrow> state" where
  "writerow vs st =
     st\<lparr>cache := map_option (\<lambda>f. (fst f, snd f @ [map csv_field vs])) (cache st)\<rparr>"

text \<open>
  The body of \<^verbatim>\<open>for item in res['Contents']\<close>, on the state and the counter, and the
  loop.
\<close>

definition write_item :: "string \<Rightarrow> s3_object \<Rightarrow> state \<times> int \<Rightarrow> state \<times> int" where
  "write_item b item sc =
     (writerow [PStr b, PStr (obj_key item), PInt (obj_size item), PStr (obj_class item)] (fst sc),
      snd sc + 1)"

fun write_items :: "string \<Rightarrow> s3_object list \<Rightarrow> state \<times> int \<Rightarrow> state \<times> int" where
  "write_items b [] sc = sc"
| "write_items b (item # items) sc = write_items b items (write_item b item sc)"

text \<open>
  The loop \<^verbatim>\<open>while True\<close> over the pages of one bucket, from the continuation token
  \<open>token\<close> (\<open>None\<close> for the first call). It ends when a response has no
  \<^verbatim>\<open>NextContinuationToken\<close>, and raises \<^verbatim>\<open>KeyError\<close> when a response has no \<^verbatim>\<open>Contents\<close>;
  a service that always sends a token keeps it running, which is the value \<open>None\<close>.
\<close>

partial_function (option) list_pages ::
  "env \<Rightarrow> string \<Rightarrow> string option \<Rightarrow> state \<times> int \<Rightarrow> (error + state \<times> int) option" where
  "list_pages e b token sc =
     (let res = s3_objects e b (prefix (self (fst sc))) token;
          sc = (call_made (ListObjectsV2 b (prefix (self (fst sc))) token) (fst sc), snd sc)
      in case contents res of
           None \<Rightarrow> Some (Inl (KeyError ''Contents''))
         | Some items \<Rightarrow>
             (let sc = write_items b items sc
              in case next_token res of
                   Some tok \<Rightarrow>
                     list_pages e b (Some tok)
                       (if verbose (self (fst sc))
                        then (print_line (''Listing bucket s3://'' @ b @ ''/'' @ prefix (self (fst sc))
                                @ '', found '' @ py_str (snd sc) @ '' files already...'') (fst sc),
                              snd sc)
                        else sc)
                 | None \<Rightarrow> Some (Inr sc)))"

text \<open>The loop \<^verbatim>\<open>for bucket in buckets\<close>.\<close>

fun list_all_buckets ::
  "env \<Rightarrow> string list \<Rightarrow> state \<times> int \<Rightarrow> (error + state \<times> int) option" where
  "list_all_buckets e [] sc = Some (Inr sc)"
| "list_all_buckets e (b # bs) sc =
     (let sc = (if verbose (self (fst sc))
                then (print_line (''Listing bucket '' @ b @ '', found '' @ py_str (snd sc)
                        @ '' files already...'') (fst sc), snd sc)
                else sc)
      in case list_pages e b None sc of
           None \<Rightarrow> None
         | Some (Inl err) \<Rightarrow> Some (Inl err)
         | Some (Inr sc') \<Rightarrow> list_all_buckets e bs sc')"

definition list_buckets :: "env \<Rightarrow> state \<Rightarrow> string list \<times> state" where
  "list_buckets e st =
     (if truthy (bucket (self st)) then ([the (bucket (self st))], st)
      else (s3_buckets e, call_made ListBuckets st))"

text \<open>
  \<^verbatim>\<open>cache_files\<close>: the early return when the cache file exists, no refresh is forced and
  the file is younger than 3600 seconds; otherwise the file is opened for writing, which
  empties it, and the buckets are listed into it.
\<close>

definition cache_files :: "env \<Rightarrow> state \<Rightarrow> (error + state) option" where
  "cache_files e st =
     (if (case cache st of
            None \<Rightarrow> False
          | Some f \<Rightarrow> \<not> nocache (self st) \<and> clock e - fst f < 3600)
      then Some (Inr (print_line (''Using file list from cache: '' @ csv_name (self st)) st))
      else
        (let st = st\<lparr>cache := Some (clock e, [])\<rparr>;
             bs = list_buckets e st
         in case list_all_buckets e (fst bs) (snd bs, 0) of
              None \<Rightarrow> None
            | Some (Inl err) \<Rightarrow> Some (Inl err)
            | Some (Inr sc) \<Rightarrow> Some (Inr (fst sc))))"

subsection \<open>\<^verbatim>\<open>list_files\<close>\<close>

text \<open>
  The loop over the rows of the reader, with the list \<^verbatim>\<open>files\<close>. Unpacking a row that
  has not four fields raises \<^verbatim>\<open>ValueError\<close>, and so does \<^verbatim>\<open>int(size)\<close> on a field that is
  not an integer; a row of another storage class than the requested one is passed over
  before its size is read.
\<close>

fun read_rows ::
  "string option \<Rightarrow> string list list \<Rightarrow> (string \<times> int) list \<Rightarrow> error + (string \<times> int) list" where
  "read_rows want [] fs = Inr fs"
| "read_rows want (row # rows) fs =
     (case row of
        [bkt, key, sz, sclass] \<Rightarrow>
          if truthy want \<and> want \<noteq> Some sclass then read_rows want rows fs
          else (case py_int sz of
                  None \<Rightarrow> Inl ValueError
                | Some n \<Rightarrow> read_rows want rows (fs @ [(''/'' @ bkt @ ''/'' @ key, n)]))
      | _ \<Rightarrow> Inl ValueError)"

definition list_files :: "state \<Rightarrow> error + (string \<times> int) list" where
  "list_files st =
     (case cache st of
        None \<Rightarrow> Inl FileNotFoundError
      | Some f \<Rightarrow> read_rows (storage_class (self st)) (snd f) [])"

subsection \<open>\<^verbatim>\<open>main\<close>\<close>

text \<open>\<^verbatim>\<open>sep.join(xs)\<close>.\<close>

fun join :: "string \<Rightarrow> string list \<Rightarrow> string" where
  "join sep [] = []"
| "join sep [x] = x"
| "join sep (x # y # ys) = x @ sep @ join sep (y # ys)"

text \<open>
  \<^verbatim>\<open>main\<close>: the cache, the list, the tree, the export written to \<^verbatim>\<open>self.filename\<close>, ncdu run
  on it, the file removed unless it is to be kept, and the closing line.
\<close>

definition main :: "env \<Rightarrow> state \<Rightarrow> (error + state) option" where
  "main e st =
     (case cache_files e st of
        None \<Rightarrow> None
      | Some (Inl err) \<Rightarrow> Some (Inl err)
      | Some (Inr st) \<Rightarrow>
          (case list_files st of
             Inl err \<Rightarrow> Some (Inl err)
           | Inr fs \<Rightarrow>
               (let tree = parse_list fs
                in case convert_tree (clock e) tree of
                     Inl err \<Rightarrow> Some (Inl err)
                   | Inr ncdu \<Rightarrow>
                       (let st = st\<lparr>export := Some ncdu\<rparr>;
                            st = call_made (RunNcdu (filename (self st))) st;
                            st = (if \<not> keep_file (self st) then st\<lparr>export := None\<rparr> else st)
                        in Some (Inr (print_line (''Found objects of classes: ''
                                   @ join '', '' (classes (self st)) @ ''.'') st))))))"

subsection \<open>Observers of the cache and of a run\<close>

text \<open>
  The writes that \<^verbatim>\<open>cache_files\<close> makes for a sequence of listed objects, each with its
  bucket: the body of its inner loop, once for each.
\<close>

definition write_records :: "(string \<times> s3_object) list \<Rightarrow> state \<times> int \<Rightarrow> state \<times> int" where
  "write_records recs sc = foldl (\<lambda>sc r. write_item (fst r) (snd r) sc) sc recs"

text \<open>The pair that \<^verbatim>\<open>list_files\<close> makes of the row of an object.\<close>

definition entry_of :: "string \<times> s3_object \<Rightarrow> string \<times> int" where
  "entry_of r = (''/'' @ fst r @ ''/'' @ obj_key (snd r), obj_size (snd r))"

text \<open>
  A row that \<^verbatim>\<open>list_files\<close> passes over when the storage class \<open>want\<close> is requested, and a
  row on which it raises: one that has not four fields, or one that is not passed over
  and whose third field \<^verbatim>\<open>int\<close> rejects.
\<close>

definition skipped :: "string option \<Rightarrow> string \<Rightarrow> bool" where
  "skipped want sclass = (truthy want \<and> want \<noteq> Some sclass)"


text \<open>
  A run that starts with the object that \<^verbatim>\<open>__init__\<close> makes, a given cache file or none,
  nothing printed and nothing called.
\<close>

definition start :: "s3du \<Rightarrow> (real \<times> string list list) option \<Rightarrow> state" where
  "start s f = \<lparr> self = s, cache = f, export = None, stdout = [], calls = [] \<rparr>"

definition no_args :: args where
  "no_args = \<lparr> arg_bucket = None, arg_prefix = None, arg_interactive = False,
               arg_verbose = False, arg_storage_class = None, arg_no_cache = False,
               arg_filename = None \<rparr>"

text \<open>
  The condition of the early return of \<^verbatim>\<open>cache_files\<close>: the cache file exists, no refresh
  is forced, and the file was modified less than 3600 seconds before now.
\<close>

definition fresh :: "env \<Rightarrow> state \<Rightarrow> bool" where
  "fresh e st =
     (case cache st of
        None \<Rightarrow> False
      | Some f \<Rightarrow> \<not> nocache (self st) \<and> clock e - fst f < 3600)"

text \<open>The rows that \<^verbatim>\<open>cache_files\<close> writes for a sequence of objects with their buckets.\<close>

definition rows_of :: "(string \<times> s3_object) list \<Rightarrow> string list list" where
  "rows_of recs = map (\<lambda>r. [fst r, obj_key (snd r), py_str (obj_size (snd r)), obj_class (snd r)]) recs"

text \<open>
  An account with one bucket whose listing comes in two pages, at the time 5000.
\<close>

definition example_env :: env where
  "example_env = \<lparr> s3_buckets = [''b''],
          s3_objects = (\<lambda>b p t. if t = None
             then \<lparr> contents = Some [\<lparr>obj_key = ''d/k'', obj_size = 7, obj_class = ''STANDARD''\<rparr>],
                    next_token = Some ''t1'' \<rparr>
             else \<lparr> contents = Some [\<lparr>obj_key = ''x'', obj_size = 12, obj_class = ''GLACIER''\<rparr>],
                    next_token = None \<rparr>),
          clock = 5000 \<rparr>"

section \<open>Properties of the tree builder\<close>

lemma split_str_not_Nil: "split_str sep s \<noteq> []"
  by (induction s) auto

lemma chain_fname_split: "chain_of p @ [fname_of p] = split_str CHR ''/'' p"
  by (simp add: chain_of_def fname_of_def split_str_not_Nil)


subsection \<open>Counting the leaf entries\<close>

lemma count_enter_dir:
  assumes "\<And>v. count_files (f v) = Suc (count_files v)"
  shows "sum_list (map (\<lambda>kv. count_files (snd kv)) (enter_dir em f ds)) =
         Suc (sum_list (map (\<lambda>kv. count_files (snd kv)) ds))"
  using assms by (induction ds) (auto simp: empty_node_def)

lemma count_walk: "count_files (walk path entry r) = Suc (count_files r)"
proof (induction path arbitrary: r)
  case Nil
  then show ?case by (cases r) simp
next
  case (Cons em path)
  then show ?case by (cases r) (simp add: count_enter_dir)
qed

lemma count_add_file: "count_files (add_file t f) = Suc (count_files t)"
  by (simp add: add_file_def Let_def count_walk)

lemma count_foldl_add_file: "count_files (foldl add_file t fs) = count_files t + length fs"
  by (induction fs arbitrary: t) (simp_all add: count_add_file)

text \<open>
  C9: for every input sequence of \<open>(path, size)\<close> pairs, duplicates included, the number
  of leaf entries summed over all nodes of the tree that \<^verbatim>\<open>parse_list\<close> builds is the
  length of the input: every insertion adds one entry and removes none.
\<close>

theorem parse_list_count_files: "count_files (parse_list fs) = length fs"
  by (simp add: parse_list_def count_foldl_add_file empty_node_def)

subsection \<open>Where an insertion lands\<close>

lemma map_of_enter_dir:
  "map_of (enter_dir em f ds) k =
     (if k = em then Some (f (case map_of ds em of None \<Rightarrow> empty_node | Some v \<Rightarrow> v))
      else map_of ds k)"
  by (induction ds) auto

lemma files_at_Nil [simp]: "files_at [] t = files t"
  by (simp add: files_at_def)

lemma files_at_Cons:
  "files_at (d # q) t = (case map_of (dirs t) d of None \<Rightarrow> [] | Some v \<Rightarrow> files_at q v)"
  by (simp add: files_at_def split: option.splits)

lemma files_at_empty_node [simp]: "files_at q empty_node = []"
  by (cases q) (simp_all add: files_at_Cons empty_node_def)

lemma files_at_walk:
  "files_at q (walk path entry r) =
     (if q = path then files_at q r @ [entry] else files_at q r)"
proof (induction path arbitrary: q r)
  case Nil
  then show ?case by (cases q) (simp_all add: files_at_Cons)
next
  case (Cons em path)
  show ?case
  proof (cases q)
    case Nil
    then show ?thesis by simp
  next
    case (Cons d qs)
    then show ?thesis
      by (simp add: files_at_Cons map_of_enter_dir Cons.IH split: option.splits)
  qed
qed

lemma has_node_Nil [simp]: "has_node [] t"
  by (simp add: has_node_def)

lemma has_node_Cons:
  "has_node (d # q) t = (case map_of (dirs t) d of None \<Rightarrow> False | Some v \<Rightarrow> has_node q v)"
  by (simp add: has_node_def split: option.splits)

lemma has_node_empty_node: "has_node q empty_node \<longleftrightarrow> q = []"
  by (cases q) (simp_all add: has_node_Cons empty_node_def)

lemma has_node_walk:
  "has_node q (walk path entry r) \<longleftrightarrow> take (length q) path = q \<or> has_node q r"
proof (induction path arbitrary: q r)
  case Nil
  then show ?case by (cases q) (auto simp: has_node_Cons split: option.splits)
next
  case (Cons em path)
  show ?case
  proof (cases q)
    case Nil
    then show ?thesis by simp
  next
    case (Cons d qs)
    then show ?thesis
      using Cons.IH has_node_empty_node
      by (auto simp add: has_node_Cons map_of_enter_dir split: option.splits)
  qed
qed

lemma files_at_add_file:
  "files_at q (add_file t f) =
     (if q = chain_of (fst f) then files_at q t @ [(fname_of (fst f), snd f)] else files_at q t)"
  by (simp add: add_file_def Let_def files_at_walk chain_of_def fname_of_def)

lemma has_node_add_file:
  "has_node q (add_file t f) \<longleftrightarrow> take (length q) (chain_of (fst f)) = q \<or> has_node q t"
  by (simp add: add_file_def Let_def has_node_walk chain_of_def)

text \<open>
  C4, as the code has it: for every pair \<open>(p, sz)\<close> inserted into a tree \<open>t\<close>, the path is
  split on the separator; the last segment is the leaf name and all the segments before
  it, the empty ones included, are the chain of directories. After the insertion the
  node at that chain exists and its leaf list is the one it had (empty if the node was
  not there) with \<open>(fname, sz)\<close> appended; every other leaf list is unchanged; and the
  nodes of the tree are the ones it had and the ones at the prefixes of the chain.
\<close>

theorem add_file_chain:
  "chain_of p @ [fname_of p] = split_str CHR ''/'' p \<and>
   has_node (chain_of p) (add_file t (p, sz)) \<and>
   (\<forall>q. files_at q (add_file t (p, sz)) =
          (if q = chain_of p then files_at q t @ [(fname_of p, sz)] else files_at q t)) \<and>
   (\<forall>q. has_node q (add_file t (p, sz)) \<longleftrightarrow>
          take (length q) (chain_of p) = q \<or> has_node q t)"
  by (simp add: chain_fname_split files_at_add_file has_node_add_file)

text \<open>
  C4 as the claim words it, with only the non-empty segments in the chain, fails: for
  the path \<^verbatim>\<open>/b/x\<close> the chain of the code is the empty name followed by \<^verbatim>\<open>b\<close>, and the
  tree has no node at the chain \<^verbatim>\<open>b\<close> alone.
\<close>

theorem add_file_nonempty_chain_counterexample:
  "spec_chain_of ''/b/x'' = [''b''] \<and>
   chain_of ''/b/x'' = [[], ''b''] \<and>
   \<not> has_node (spec_chain_of ''/b/x'') (add_file empty_node (''/b/x'', 1)) \<and>
   files_at (spec_chain_of ''/b/x'') (add_file empty_node (''/b/x'', 1)) = [] \<and>
   files_at (chain_of ''/b/x'') (add_file empty_node (''/b/x'', 1)) = [(''x'', 1)]"
  by (simp add: spec_chain_of_def chain_of_def add_file_def empty_node_def
      has_node_def files_at_def)

subsection \<open>The leaf lists of the built tree\<close>




section \<open>Properties of the export\<close>

lemma foldl_snoc: "foldl (\<lambda>res x. res @ [g x]) acc xs = acc @ map g xs"
  by (induction xs arbitrary: acc) simp_all

lemma convert_branch_closed:
  "convert_branch t name =
     JArr (JObj [(''name'', JStr (or_unnamed name))]
           # map (\<lambda>kv. convert_branch (snd kv) (fst kv)) (dirs t)
           @ map (\<lambda>f. JObj [(''name'', JStr (or_unnamed (fst f))), (''dsize'', JInt (snd f))])
               (files t))"
  by (cases t) (simp add: foldl_snoc)

text \<open>
  C7: every directory node is exported as an array whose first element is the object
  with the directory's name; then come the arrays of the subdirectories, in the order
  of the dictionary, and after them the objects of the leaf files, in the order of the
  list; a directory or file whose name is the empty string carries the placeholder
  \<^verbatim>\<open>(unnamed)\<close>, any other name is kept.
\<close>

theorem convert_branch_layout:
  "convert_branch t name =
     JArr ([JObj [(''name'', JStr (if name = [] then ''(unnamed)'' else name))]]
           @ map (\<lambda>kv. convert_branch (snd kv) (fst kv)) (dirs t)
           @ map (\<lambda>f. JObj [(''name'', JStr (if fst f = [] then ''(unnamed)'' else fst f)),
                              (''dsize'', JInt (snd f))])
               (files t))"
  by (subst convert_branch_closed) (simp add: or_unnamed_def)







text \<open>
  C2: for the empty input \<^verbatim>\<open>parse_list\<close> returns the empty root, and \<^verbatim>\<open>convert_tree\<close> of
  that root raises \<^verbatim>\<open>KeyError\<close> at \<^verbatim>\<open>tree['dirs']['']\<close> instead of returning a childless
  export.
\<close>

theorem convert_tree_empty_input:
  "parse_list [] = Node [] [] \<and> convert_tree now (parse_list []) = Inl (KeyError [])"
  by (simp add: convert_tree_def parse_list_def empty_node_def)

section \<open>Properties of the cache\<close>

subsection \<open>\<^verbatim>\<open>int(str(n))\<close> is \<open>n\<close>\<close>

lemma lt10_cases: "d < (10::nat) \<Longrightarrow> d \<in> {0,1,2,3,4,5,6,7,8,9}"
  by auto

lemma digit_char_props:
  assumes "d < 10"
  shows "is_digit (digit_char d)" "digit_val (digit_char d) = d" "\<not> is_space (digit_char d)"
    "digit_char d \<noteq> CHR ''_''" "digit_char d \<noteq> CHR ''-''" "digit_char d \<noteq> CHR ''+''"
  using lt10_cases [OF assms]
  by (auto simp: digit_char_def is_digit_def digit_val_def is_space_def)

declare digits.simps [simp del]

lemma digits_chars: "c \<in> set (digits n) \<Longrightarrow> \<exists>d<10. c = digit_char d"
proof (induction n rule: digits.induct)
  case (1 n)
  show ?case
  proof (cases "n < 10")
    case True
    with "1.prems" show ?thesis by (subst (asm) digits.simps) auto
  next
    case False
    with "1.prems" have "c \<in> set (digits (n div 10)) \<or> c = digit_char (n mod 10)"
      by (subst (asm) digits.simps) auto
    then show ?thesis
    proof
      assume "c \<in> set (digits (n div 10))"
      with False "1.IH" show ?thesis by blast
    next
      assume "c = digit_char (n mod 10)"
      moreover have "n mod 10 < 10" by simp
      ultimately show ?thesis by blast
    qed
  qed
qed

lemma digits_char_kind:
  assumes "c \<in> set (digits n)"
  shows "is_digit c" "\<not> is_space c" "c \<noteq> CHR ''_''" "c \<noteq> CHR ''-''" "c \<noteq> CHR ''+''"
proof -
  from assms obtain d where d: "d < 10" "c = digit_char d"
    using digits_chars by blast
  show "is_digit c" "\<not> is_space c" "c \<noteq> CHR ''_''" "c \<noteq> CHR ''-''" "c \<noteq> CHR ''+''"
    using digit_char_props [OF d(1)] d(2) by simp_all
qed

lemma digits_not_Nil: "digits n \<noteq> []"
  by (subst digits.simps) simp

lemma digits_value: "foldl (\<lambda>acc c. 10 * acc + digit_val c) 0 (digits n) = n"
proof (induction n rule: digits.induct)
  case (1 n)
  show ?case
  proof (cases "n < 10")
    case True
    then show ?thesis by (subst digits.simps) (simp add: digit_char_props)
  next
    case False
    have "n mod 10 < 10" by simp
    then have "digit_val (digit_char (n mod 10)) = n mod 10" by (rule digit_char_props)
    with False "1.IH" show ?thesis by (subst digits.simps) simp
  qed
qed

lemma split_str_no_sep: "sep \<notin> set s \<Longrightarrow> split_str sep s = [s]"
  by (induction s) auto

lemma strip_no_space:
  assumes "s \<noteq> []" and "\<not> is_space (hd s)" and "\<not> is_space (last s)"
  shows "strip s = s"
proof -
  from assms(1,2) have a: "dropWhile is_space s = s" by (cases s) auto
  from assms(1) have r: "rev s = last s # rev (butlast s)"
    by (metis append_butlast_last_id rev_eq_Cons_iff rev_rev_ident)
  have b: "dropWhile is_space (rev s) = rev s"
    by (simp only: r dropWhile.simps assms(3) if_False)
  show ?thesis by (simp add: strip_def a b)
qed

lemma parse_digits_digits: "parse_digits (digits n) = Some n"
proof -
  have ns: "CHR ''_'' \<notin> set (digits n)"
    using digits_char_kind(3) by blast
  have ad: "list_all is_digit (digits n)"
    unfolding list_all_iff using digits_char_kind(1) by blast
  show ?thesis
    by (simp add: parse_digits_def split_str_no_sep [OF ns] ad digits_not_Nil digits_value)
qed

lemma strip_digits: "strip (digits n) = digits n"
proof (rule strip_no_space)
  show "digits n \<noteq> []" by (rule digits_not_Nil)
  have "hd (digits n) \<in> set (digits n)" "last (digits n) \<in> set (digits n)"
    using digits_not_Nil by simp_all
  then show "\<not> is_space (hd (digits n))" "\<not> is_space (last (digits n))"
    using digits_char_kind(2) by blast+
qed

lemma strip_minus_digits: "strip (CHR ''-'' # digits n) = CHR ''-'' # digits n"
proof (rule strip_no_space)
  show "CHR ''-'' # digits n \<noteq> []" by simp
  show "\<not> is_space (hd (CHR ''-'' # digits n))" by (simp add: is_space_def)
  have "last (digits n) \<in> set (digits n)"
    using digits_not_Nil by simp
  then have "\<not> is_space (last (digits n))"
    by (rule digits_char_kind(2))
  then show "\<not> is_space (last (CHR ''-'' # digits n))"
    using digits_not_Nil by simp
qed

lemma py_int_py_str: "py_int (py_str n) = Some n"
proof (cases "n < 0")
  case True
  then show ?thesis
    by (simp add: py_int_def py_str_def strip_minus_digits parse_digits_digits)
next
  case False
  obtain c cs where d: "digits (nat n) = c # cs"
    using digits_not_Nil by (cases "digits (nat n)") auto
  have "c \<in> set (digits (nat n))" by (simp add: d)
  then have "c \<noteq> CHR ''-''" "c \<noteq> CHR ''+''"
    by (rule digits_char_kind)+
  moreover have "parse_digits (c # cs) = Some (nat n)"
    using parse_digits_digits [of "nat n"] d by simp
  moreover have "strip (c # cs) = c # cs"
    using strip_digits [of "nat n"] d by simp
  ultimately show ?thesis
    using False by (simp add: py_int_def py_str_def d)
qed

subsection \<open>What is written is what is read\<close>

lemma writerow_frame [simp]:
  "self (writerow vs st) = self st" "stdout (writerow vs st) = stdout st"
  "calls (writerow vs st) = calls st" "export (writerow vs st) = export st"
  by (simp_all add: writerow_def)

lemma write_item_frame [simp]:
  "self (fst (write_item b i sc)) = self (fst sc)"
  "stdout (fst (write_item b i sc)) = stdout (fst sc)"
  "calls (fst (write_item b i sc)) = calls (fst sc)"
  "export (fst (write_item b i sc)) = export (fst sc)"
  "snd (write_item b i sc) = snd sc + 1"
  by (simp_all add: write_item_def)

lemma cache_write_item:
  "cache (fst (write_item b i sc)) =
     map_option (\<lambda>f. (fst f, snd f @ [[b, obj_key i, py_str (obj_size i), obj_class i]]))
       (cache (fst sc))"
  by (simp add: write_item_def writerow_def)

lemma write_records_frame [simp]:
  "self (fst (write_records recs sc)) = self (fst sc)"
  "stdout (fst (write_records recs sc)) = stdout (fst sc)"
  "calls (fst (write_records recs sc)) = calls (fst sc)"
  "export (fst (write_records recs sc)) = export (fst sc)"
  "snd (write_records recs sc) = snd sc + int (length recs)"
  unfolding write_records_def by (induction recs arbitrary: sc) simp_all

lemma cache_write_records:
  "cache (fst (write_records recs sc)) =
     map_option (\<lambda>f. (fst f, snd f @ map (\<lambda>r. [fst r, obj_key (snd r), py_str (obj_size (snd r)),
                                                obj_class (snd r)]) recs))
       (cache (fst sc))"
  unfolding write_records_def
proof (induction recs arbitrary: sc)
  case Nil
  then show ?case by (simp add: option.map_ident)
next
  case (Cons r recs)
  show ?case
    by (simp add: Cons.IH cache_write_item option.map_comp comp_def)
qed

lemma write_items_records: "write_items b items sc = write_records (map (Pair b) items) sc"
  unfolding write_records_def by (induction items arbitrary: sc) simp_all

lemma read_rows_append:
  "read_rows want (rows1 @ rows2) fs =
     (case read_rows want rows1 fs of Inl err \<Rightarrow> Inl err | Inr fs' \<Rightarrow> read_rows want rows2 fs')"
  by (induction want rows1 fs rule: read_rows.induct)
     (auto split: list.splits option.splits)

lemma read_rows_written:
  "read_rows want (map (\<lambda>r. [fst r, obj_key (snd r), py_str (obj_size (snd r)), obj_class (snd r)]) recs) fs =
     Inr (fs @ map entry_of (filter (\<lambda>r. \<not> skipped want (obj_class (snd r))) recs))"
  by (induction recs arbitrary: fs) (simp_all add: py_int_py_str entry_of_def skipped_def)







subsection \<open>When reading fails\<close>










section \<open>Properties of a run\<close>

lemma print_line_frame [simp]:
  "self (print_line s st) = self st" "cache (print_line s st) = cache st"
  "calls (print_line s st) = calls st" "export (print_line s st) = export st"
  "stdout (print_line s st) = stdout st @ [s]"
  by (simp_all add: print_line_def)

lemma call_made_frame [simp]:
  "self (call_made c st) = self st" "cache (call_made c st) = cache st"
  "calls (call_made c st) = calls st @ [c]" "export (call_made c st) = export st"
  "stdout (call_made c st) = stdout st"
  by (simp_all add: call_made_def)

lemma write_items_frame [simp]:
  "self (fst (write_items b items sc)) = self (fst sc)"
  "calls (fst (write_items b items sc)) = calls (fst sc)"
  "export (fst (write_items b items sc)) = export (fst sc)"
  by (simp_all add: write_items_records)


lemma list_pages_frame:
  assumes "list_pages e b token sc = Some y"
  shows "\<forall>sc'. y = Inr sc' \<longrightarrow>
           self (fst sc') = self (fst sc) \<and> export (fst sc') = export (fst sc) \<and>
           length (calls (fst sc)) < length (calls (fst sc'))"
  using assms
proof (induction rule: list_pages.raw_induct [rotated 1, consumes 1])
  case (1 lp e b token sc y)
  note eq = 1(2)
  define res where "res = s3_objects e b (prefix (self (fst sc))) token"
  define sc1 where "sc1 = (call_made (ListObjectsV2 b (prefix (self (fst sc))) token) (fst sc), snd sc)"
  have f1: "self (fst sc1) = self (fst sc)" "export (fst sc1) = export (fst sc)"
    "length (calls (fst sc1)) = Suc (length (calls (fst sc)))"
    by (simp_all add: sc1_def)
  show ?case
  proof (cases "contents res")
    case None
    with eq have "y = Inl (KeyError ''Contents'')"
      by (simp add: Let_def res_def [symmetric])
    then show ?thesis by simp
  next
    case (Some items)
    define sc2 where "sc2 = write_items b items sc1"
    have f2: "self (fst sc2) = self (fst sc)" "export (fst sc2) = export (fst sc)"
      "length (calls (fst sc2)) = Suc (length (calls (fst sc)))"
      using f1 by (simp_all add: sc2_def)
    show ?thesis
    proof (cases "next_token res")
      case None
      with Some eq have "y = Inr sc2"
        by (simp add: Let_def res_def [symmetric] sc1_def [symmetric] sc2_def [symmetric])
      with f2 show ?thesis by simp
    next
      case tok: (Some tok)
      define sc3 where "sc3 = (if verbose (self (fst sc2))
                  then (print_line (''Listing bucket s3://'' @ b @ ''/'' @ prefix (self (fst sc2))
                          @ '', found '' @ py_str (snd sc2) @ '' files already...'') (fst sc2),
                        snd sc2)
                  else sc2)"
      have f3: "self (fst sc3) = self (fst sc)" "export (fst sc3) = export (fst sc)"
        "length (calls (fst sc3)) = Suc (length (calls (fst sc)))"
        using f2 by (simp_all add: sc3_def)
      from Some tok eq have "lp e b (Some tok) sc3 = Some y"
        by (simp add: Let_def res_def [symmetric] sc1_def [symmetric] sc2_def [symmetric]
            sc3_def [symmetric])
      from "1.IH" [OF this] have
        "\<forall>sc'. y = Inr sc' \<longrightarrow> self (fst sc') = self (fst sc3) \<and> export (fst sc') = export (fst sc3) \<and>
               length (calls (fst sc3)) < length (calls (fst sc'))" .
      then have ih: "\<And>sc'. y = Inr sc' \<Longrightarrow> self (fst sc') = self (fst sc3)"
        "\<And>sc'. y = Inr sc' \<Longrightarrow> export (fst sc') = export (fst sc3)"
        "\<And>sc'. y = Inr sc' \<Longrightarrow> length (calls (fst sc3)) < length (calls (fst sc'))"
        by blast+
      show ?thesis
      proof (intro allI impI conjI)
        fix sc' assume y: "y = Inr sc'"
        show "self (fst sc') = self (fst sc)"
          using ih(1) [OF y] f3(1) by (rule trans)
        show "export (fst sc') = export (fst sc)"
          using ih(2) [OF y] f3(2) by (rule trans)
        show "length (calls (fst sc)) < length (calls (fst sc'))"
          using ih(3) [OF y] f3(3) by linarith
      qed
    qed
  qed
qed

lemma list_all_buckets_frame:
  "list_all_buckets e bs sc = Some (Inr sc') \<Longrightarrow>
     self (fst sc') = self (fst sc) \<and> export (fst sc') = export (fst sc) \<and>
     length (calls (fst sc)) \<le> length (calls (fst sc')) \<and>
     (bs \<noteq> [] \<longrightarrow> length (calls (fst sc)) < length (calls (fst sc')))"
proof (induction bs arbitrary: sc)
  case Nil
  then show ?case by simp
next
  case (Cons b bs)
  let ?sc1 = "if verbose (self (fst sc))
              then (print_line (''Listing bucket '' @ b @ '', found '' @ py_str (snd sc)
                      @ '' files already...'') (fst sc), snd sc)
              else sc"
  from Cons.prems obtain sc2 where p: "list_pages e b None ?sc1 = Some (Inr sc2)"
    and r: "list_all_buckets e bs sc2 = Some (Inr sc')"
    by (auto simp: Let_def split: option.splits sum.splits)
  from list_pages_frame [OF p] have a:
    "self (fst sc2) = self (fst ?sc1)" "export (fst sc2) = export (fst ?sc1)"
    "length (calls (fst ?sc1)) < length (calls (fst sc2))"
    by blast+
  have b: "self (fst ?sc1) = self (fst sc)" "export (fst ?sc1) = export (fst sc)"
    "calls (fst ?sc1) = calls (fst sc)"
    by simp_all
  note c = Cons.IH [OF r]
  have "self (fst sc') = self (fst sc)"
    using c a(1) b(1) by (simp only:)
  moreover have "export (fst sc') = export (fst sc)"
    using c a(2) b(2) by (simp only:)
  moreover have "length (calls (fst sc)) < length (calls (fst sc'))"
  proof -
    have "length (calls (fst sc)) < length (calls (fst sc2))"
      using a(3) by (simp only: b(3))
    moreover have "length (calls (fst sc2)) \<le> length (calls (fst sc'))"
      using c by blast
    ultimately show ?thesis by (rule less_le_trans)
  qed
  ultimately show ?case by simp
qed

lemma cache_files_fresh:
  "fresh e st \<Longrightarrow>
     cache_files e st = Some (Inr (print_line (''Using file list from cache: '' @ csv_name (self st)) st))"
  by (simp add: cache_files_def fresh_def)

lemma cache_files_stale:
  assumes "\<not> fresh e st" and "cache_files e st = Some (Inr st')"
  shows "self st' = self st \<and> export st' = export st \<and> length (calls st) < length (calls st')"
proof -
  let ?st1 = "st\<lparr>cache := Some (clock e, [])\<rparr>"
  let ?bs = "list_buckets e ?st1"
  from assms obtain sc where l: "list_all_buckets e (fst ?bs) (snd ?bs, 0) = Some (Inr sc)"
    and st': "st' = fst sc"
    by (auto simp: cache_files_def fresh_def Let_def split: option.splits sum.splits if_splits)
  note f = list_all_buckets_frame [OF l]
  show ?thesis
  proof (cases "truthy (bucket (self st))")
    case True
    then have "fst ?bs \<noteq> []" "snd ?bs = ?st1" by (simp_all add: list_buckets_def)
    with f st' show ?thesis by simp
  next
    case False
    then have "snd ?bs = call_made ListBuckets ?st1" by (simp add: list_buckets_def)
    with f st' show ?thesis by simp
  qed
qed

lemma cache_files_self:
  assumes "cache_files e st = Some (Inr st')"
  shows "self st' = self st \<and> export st' = export st"
proof (cases "fresh e st")
  case True
  with assms show ?thesis by (auto simp: cache_files_fresh)
next
  case False
  with assms show ?thesis using cache_files_stale by blast
qed

subsection \<open>When the listing is skipped\<close>

lemma cache_files_skips_iff:
  "(\<exists>st'. cache_files e st = Some (Inr st') \<and> calls st' = calls st \<and> cache st' = cache st)
     \<longleftrightarrow> fresh e st"
proof
  assume "fresh e st"
  then have "cache_files e st =
      Some (Inr (print_line (''Using file list from cache: '' @ csv_name (self st)) st))"
    by (rule cache_files_fresh)
  then show "\<exists>st'. cache_files e st = Some (Inr st') \<and> calls st' = calls st \<and> cache st' = cache st"
    by simp
next
  assume "\<exists>st'. cache_files e st = Some (Inr st') \<and> calls st' = calls st \<and> cache st' = cache st"
  then obtain st' where r: "cache_files e st = Some (Inr st')" and c: "calls st' = calls st"
    by blast
  show "fresh e st"
  proof (rule ccontr)
    assume "\<not> fresh e st"
    from cache_files_stale [OF this r] have "length (calls st) < length (calls st')"
      by blast
    with c show False by simp
  qed
qed

lemma fresh_iff:
  "fresh e st \<longleftrightarrow>
     (\<exists>mtime rows. cache st = Some (mtime, rows) \<and> clock e - mtime < 3600 \<and> \<not> nocache (self st))"
  by (cases "cache st") (auto simp: fresh_def)

text \<open>
  C5: \<^verbatim>\<open>cache_files\<close> returns without a call to S3 and without a change to the cache file
  if and only if the cache file exists, it was modified less than 3600 seconds before
  now, and no refresh is forced. So it does for a file modified 10 seconds ago when no
  refresh is forced, and it does not for a file modified 7200 seconds ago.
\<close>

theorem cache_files_fresh_iff:
  "((\<exists>st'. cache_files e st = Some (Inr st') \<and> calls st' = calls st \<and> cache st' = cache st)
      \<longleftrightarrow> (\<exists>mtime rows. cache st = Some (mtime, rows) \<and> clock e - mtime < 3600 \<and>
                        \<not> nocache (self st))) \<and>
   (cache st = Some (clock e - 10, rows) \<and> \<not> nocache (self st) \<longrightarrow>
      (\<exists>st'. cache_files e st = Some (Inr st') \<and> calls st' = calls st \<and> cache st' = cache st)) \<and>
   (cache st = Some (clock e - 7200, rows) \<longrightarrow>
      \<not> (\<exists>st'. cache_files e st = Some (Inr st') \<and> calls st' = calls st \<and> cache st' = cache st))"
proof (intro conjI impI)
  show "(\<exists>st'. cache_files e st = Some (Inr st') \<and> calls st' = calls st \<and> cache st' = cache st)
      \<longleftrightarrow> (\<exists>mtime rows. cache st = Some (mtime, rows) \<and> clock e - mtime < 3600 \<and>
                        \<not> nocache (self st))"
    by (simp only: cache_files_skips_iff fresh_iff)
next
  assume "cache st = Some (clock e - 10, rows) \<and> \<not> nocache (self st)"
  then have "fresh e st" by (simp add: fresh_def)
  then show "\<exists>st'. cache_files e st = Some (Inr st') \<and> calls st' = calls st \<and> cache st' = cache st"
    by (simp only: cache_files_skips_iff)
next
  assume "cache st = Some (clock e - 7200, rows)"
  then have "\<not> fresh e st" by (simp add: fresh_def)
  then show "\<not> (\<exists>st'. cache_files e st = Some (Inr st') \<and> calls st' = calls st \<and> cache st' = cache st)"
    using cache_files_skips_iff [of e st] by (simp only: not_False_eq_True)
qed

theorem cache_files_fresh_iff_witness:
  "cache (start (init no_args ''csv'' ''tmp'') (Some (4990, []))) = Some (clock example_env - 10, []) \<and>
   \<not> nocache (self (start (init no_args ''csv'' ''tmp'') (Some (4990, [])))) \<and>
   (\<exists>st'. cache_files example_env (start (init no_args ''csv'' ''tmp'') (Some (4990, []))) = Some (Inr st') \<and>
          calls st' = calls (start (init no_args ''csv'' ''tmp'') (Some (4990, []))) \<and>
          cache st' = cache (start (init no_args ''csv'' ''tmp'') (Some (4990, [])))) \<and>
   cache (start (init no_args ''csv'' ''tmp'') (Some (- 2200, []))) = Some (clock example_env - 7200, []) \<and>
   \<not> (\<exists>st'. cache_files example_env (start (init no_args ''csv'' ''tmp'') (Some (- 2200, []))) = Some (Inr st') \<and>
          calls st' = calls (start (init no_args ''csv'' ''tmp'') (Some (- 2200, []))) \<and>
          cache st' = cache (start (init no_args ''csv'' ''tmp'') (Some (- 2200, []))))"
proof -
  let ?f = "start (init no_args ''csv'' ''tmp'') (Some (4990, []))"
  let ?s = "start (init no_args ''csv'' ''tmp'') (Some (- 2200, []))"
  have a: "cache ?f = Some (clock example_env - 10, [])"
    by (simp add: start_def example_env_def)
  have b: "\<not> nocache (self ?f)"
    by (simp add: start_def init_def no_args_def Let_def)
  have c: "cache ?s = Some (clock example_env - 7200, [])"
    by (simp add: start_def example_env_def)
  from a b cache_files_fresh_iff [of example_env ?f "[]"] have
    "\<exists>st'. cache_files example_env ?f = Some (Inr st') \<and> calls st' = calls ?f \<and> cache st' = cache ?f"
    by blast
  moreover from c cache_files_fresh_iff [of example_env ?s "[]"] have
    "\<not> (\<exists>st'. cache_files example_env ?s = Some (Inr st') \<and> calls st' = calls ?s \<and> cache st' = cache ?s)"
    by blast
  ultimately show ?thesis using a b c by blast
qed

subsection \<open>The storage classes reported\<close>

lemma init_classes: "classes (init a csv tmp) = []"
  by (simp add: init_def Let_def)

lemma main_result:
  assumes "main e st = Some (Inr st')"
  shows "\<exists>st1 fs ncdu. cache_files e st = Some (Inr st1) \<and> list_files st1 = Inr fs \<and>
           convert_tree (clock e) (parse_list fs) = Inr ncdu \<and>
           self st' = self st1 \<and>
           stdout st' = stdout st1 @ [''Found objects of classes: '' @ join '', '' (classes (self st1)) @ ''.'']"
proof -
  from assms obtain st1 where c: "cache_files e st = Some (Inr st1)"
    by (auto simp: main_def split: option.splits sum.splits)
  from assms c obtain fs where l: "list_files st1 = Inr fs"
    by (auto simp: main_def split: sum.splits)
  from assms c l obtain ncdu where n: "convert_tree (clock e) (parse_list fs) = Inr ncdu"
    by (auto simp: main_def Let_def split: sum.splits)
  from assms c l n have "self st' = self st1 \<and>
      stdout st' = stdout st1 @ [''Found objects of classes: '' @ join '', '' (classes (self st1)) @ ''.'']"
    by (auto simp: main_def Let_def)
  with c l n show ?thesis by blast
qed

text \<open>
  C10: \<^verbatim>\<open>__init__\<close> makes the set of storage classes empty and no step of \<^verbatim>\<open>main\<close> changes
  the object, so whenever \<^verbatim>\<open>main\<close> returns, the set is still empty and the last line
  printed reports no class at all.
\<close>

theorem main_reports_no_classes:
  assumes "main e st = Some (Inr st')" and "self st = init a csv tmp"
  shows "self st' = self st \<and> classes (self st') = [] \<and>
         last (stdout st') = ''Found objects of classes: .''"
proof -
  from main_result [OF assms(1)] obtain st1 where
    c: "cache_files e st = Some (Inr st1)" and s: "self st' = self st1" and
    o: "stdout st' = stdout st1 @ [''Found objects of classes: '' @ join '', '' (classes (self st1)) @ ''.'']"
    by blast
  from cache_files_self [OF c] have s1: "self st1 = self st" by blast
  have cl: "classes (self st1) = []"
    by (simp add: s1 assms(2) init_classes)
  have "self st' = self st" using s s1 by (rule trans)
  moreover have "classes (self st') = []" using s cl by simp
  moreover have "last (stdout st') = ''Found objects of classes: .''"
    by (simp add: o cl)
  ultimately show ?thesis by blast
qed

lemma main_example_env: "\<exists>st'. main example_env (start (init no_args ''csv'' ''tmp'') None) = Some (Inr st')"
  by (simp add: main_def cache_files_def start_def init_def no_args_def Let_def truthy_def list_buckets_def
     call_made_def example_env_def list_pages.simps write_item_def writerow_def list_files_def py_int_py_str
     parse_list_def add_file_def empty_node_def convert_tree_def print_line_def)

theorem main_reports_no_classes_witness:
  "\<exists>st'. main example_env (start (init no_args ''csv'' ''tmp'') None) = Some (Inr st') \<and>
         self (start (init no_args ''csv'' ''tmp'') None) = init no_args ''csv'' ''tmp'' \<and>
         classes (self st') = [] \<and>
         last (stdout st') = ''Found objects of classes: .''"
proof -
  obtain st' where m: "main example_env (start (init no_args ''csv'' ''tmp'') None) = Some (Inr st')"
    using main_example_env by blast
  have s: "self (start (init no_args ''csv'' ''tmp'') None) = init no_args ''csv'' ''tmp''"
    by (simp add: start_def)
  from main_reports_no_classes [OF m s] m s show ?thesis by blast
qed

subsection \<open>What a refreshed cache holds\<close>

lemma cache_write_items:
  "cache (fst (write_items b items sc)) =
     map_option (\<lambda>f. (fst f, snd f @ rows_of (map (Pair b) items))) (cache (fst sc))"
  by (simp add: write_items_records cache_write_records rows_of_def)

lemma rows_of_append: "rows_of (xs @ ys) = rows_of xs @ rows_of ys"
  by (simp add: rows_of_def)

lemma list_pages_rows:
  assumes "list_pages e b token sc = Some y"
  shows "\<forall>sc'. y = Inr sc' \<longrightarrow>
           (\<exists>recs. cache (fst sc') =
              map_option (\<lambda>f. (fst f, snd f @ rows_of recs)) (cache (fst sc)))"
  using assms
proof (induction rule: list_pages.raw_induct [rotated 1, consumes 1])
  case (1 lp e b token sc y)
  note eq = 1(2)
  define res where "res = s3_objects e b (prefix (self (fst sc))) token"
  define sc1 where "sc1 = (call_made (ListObjectsV2 b (prefix (self (fst sc))) token) (fst sc), snd sc)"
  have f1: "cache (fst sc1) = cache (fst sc)"
    by (simp add: sc1_def)
  show ?case
  proof (cases "contents res")
    case None
    with eq have "y = Inl (KeyError ''Contents'')"
      by (simp add: Let_def res_def [symmetric])
    then show ?thesis by simp
  next
    case (Some items)
    define sc2 where "sc2 = write_items b items sc1"
    have f2: "cache (fst sc2) =
        map_option (\<lambda>f. (fst f, snd f @ rows_of (map (Pair b) items))) (cache (fst sc))"
      by (simp only: sc2_def cache_write_items f1)
    show ?thesis
    proof (cases "next_token res")
      case None
      with Some eq have "y = Inr sc2"
        by (simp add: Let_def res_def [symmetric] sc1_def [symmetric] sc2_def [symmetric])
      with f2 show ?thesis by blast
    next
      case tok: (Some tok)
      define sc3 where "sc3 = (if verbose (self (fst sc2))
                  then (print_line (''Listing bucket s3://'' @ b @ ''/'' @ prefix (self (fst sc2))
                          @ '', found '' @ py_str (snd sc2) @ '' files already...'') (fst sc2),
                        snd sc2)
                  else sc2)"
      have f3: "cache (fst sc3) = cache (fst sc2)"
        by (simp add: sc3_def)
      from Some tok eq have "lp e b (Some tok) sc3 = Some y"
        by (simp add: Let_def res_def [symmetric] sc1_def [symmetric] sc2_def [symmetric]
            sc3_def [symmetric])
      from "1.IH" [OF this] have ih:
        "\<forall>sc'. y = Inr sc' \<longrightarrow>
           (\<exists>recs. cache (fst sc') = map_option (\<lambda>f. (fst f, snd f @ rows_of recs)) (cache (fst sc3)))" .
      show ?thesis
      proof (intro allI impI)
        fix sc' assume "y = Inr sc'"
        with ih obtain recs where
          "cache (fst sc') = map_option (\<lambda>f. (fst f, snd f @ rows_of recs)) (cache (fst sc3))"
          by blast
        then have "cache (fst sc') =
            map_option (\<lambda>f. (fst f, snd f @ rows_of (map (Pair b) items @ recs))) (cache (fst sc))"
          by (simp only: f3 f2 option.map_comp comp_def fst_conv snd_conv rows_of_append append_assoc)
        then show "\<exists>recs. cache (fst sc') =
            map_option (\<lambda>f. (fst f, snd f @ rows_of recs)) (cache (fst sc))"
          by blast
      qed
    qed
  qed
qed

lemma list_all_buckets_rows:
  "list_all_buckets e bs sc = Some (Inr sc') \<Longrightarrow>
     \<exists>recs. cache (fst sc') = map_option (\<lambda>f. (fst f, snd f @ rows_of recs)) (cache (fst sc))"
proof (induction bs arbitrary: sc)
  case Nil
  then have "sc' = sc" by simp
  moreover have "cache (fst sc) = map_option (\<lambda>f. (fst f, snd f @ rows_of [])) (cache (fst sc))"
    by (simp add: rows_of_def option.map_ident)
  ultimately show ?case by blast
next
  case (Cons b bs)
  let ?sc1 = "if verbose (self (fst sc))
              then (print_line (''Listing bucket '' @ b @ '', found '' @ py_str (snd sc)
                      @ '' files already...'') (fst sc), snd sc)
              else sc"
  from Cons.prems obtain sc2 where p: "list_pages e b None ?sc1 = Some (Inr sc2)"
    and r: "list_all_buckets e bs sc2 = Some (Inr sc')"
    by (auto simp: Let_def split: option.splits sum.splits)
  have b: "cache (fst ?sc1) = cache (fst sc)" by simp
  from list_pages_rows [OF p] obtain r1 where
    a: "cache (fst sc2) = map_option (\<lambda>f. (fst f, snd f @ rows_of r1)) (cache (fst ?sc1))"
    by blast
  from Cons.IH [OF r] obtain r2 where
    c: "cache (fst sc') = map_option (\<lambda>f. (fst f, snd f @ rows_of r2)) (cache (fst sc2))"
    by blast
  have "cache (fst sc') = map_option (\<lambda>f. (fst f, snd f @ rows_of (r1 @ r2))) (cache (fst sc))"
    by (simp only: c a b option.map_comp comp_def fst_conv snd_conv rows_of_append append_assoc)
  then show ?case by blast
qed

lemma cache_files_rows:
  assumes "\<not> fresh e st" and "cache_files e st = Some (Inr st')"
  shows "\<exists>recs. cache st' = Some (clock e, rows_of recs)"
proof -
  let ?st1 = "st\<lparr>cache := Some (clock e, [])\<rparr>"
  let ?bs = "list_buckets e ?st1"
  from assms obtain sc where l: "list_all_buckets e (fst ?bs) (snd ?bs, 0) = Some (Inr sc)"
    and st': "st' = fst sc"
    by (auto simp: cache_files_def fresh_def Let_def split: option.splits sum.splits if_splits)
  have "cache (snd ?bs) = Some (clock e, [])"
    by (simp add: list_buckets_def)
  with list_all_buckets_rows [OF l] st' show ?thesis by auto
qed

lemma list_files_after_refresh:
  assumes "\<not> fresh e st" and "cache_files e st = Some (Inr st')"
  shows "\<exists>recs. list_files st' =
           Inr (map entry_of (filter (\<lambda>r. \<not> skipped (storage_class (self st)) (obj_class (snd r))) recs))"
proof -
  from cache_files_rows [OF assms] obtain recs where c: "cache st' = Some (clock e, rows_of recs)"
    by blast
  from cache_files_self [OF assms(2)] have s: "self st' = self st" by blast
  have "list_files st' =
      Inr (map entry_of (filter (\<lambda>r. \<not> skipped (storage_class (self st)) (obj_class (snd r))) recs))"
    by (simp add: list_files_def c s rows_of_def read_rows_written)
  then show ?thesis by blast
qed

end
